theory Spec2Isabelle
  imports Complex_Main "HOL-Library.Multiset"
begin

section \<open>The tournament of \<^verbatim>\<open>font_tester_advanced.py\<close>\<close>

text \<open>
  The class \<^verbatim>\<open>FontTesterApp\<close> runs a knock-out tournament over a list of font names.
  Its fields are the state of the tournament; the two buttons (and the two arrow keys)
  call \<^verbatim>\<open>select_left\<close> and \<^verbatim>\<open>select_right\<close>. The model keeps the fields the
  tournament reads and writes, and of the widgets the three texts that show the state to
  the user: the two font labels and the status label. Window layout, fonts of the
  widgets and the sample text are left out; so is the integer shown by the progress bar,
  which the source computes in floating point.
\<close>

subsection \<open>Data\<close>

type_synonym font = string

text \<open>The only exception the tournament code can raise: a list read out of range.\<close>

datatype error = IndexError

text \<open>
  The status label holds one of three texts: the empty string it is created with,
  \<^verbatim>\<open>Round r of t - Pair p of n\<close>, or \<^verbatim>\<open>Final Winner:\<close> followed by the lines
  \<^verbatim>\<open>font (count)\<close>. The model keeps the data each text is formatted from.
\<close>

datatype status =
    NoStatus
  | RoundStatus nat nat nat nat
  | FinalWinner "(font \<times> int) list"

text \<open>
  \<^verbatim>\<open>winner_counts\<close> is a \<^verbatim>\<open>collections.Counter\<close>: a dictionary that keeps its keys in
  the order of their insertion, read as 0 at a missing key. The order decides ties in
  the final sort, so the model is an association list in insertion order.
\<close>

type_synonym counter = "(font \<times> int) list"

text \<open>
  The pair index and the round numbers start at 0 or 1 and are only ever incremented, so
  they are natural numbers; the counts are Python integers.
\<close>

record FontTesterApp =
  current_round_fonts :: "font list"
  round_winners :: "font list"
  current_pair_index :: nat
  round_number :: nat
  total_rounds :: nat
  winner_counts :: counter
  selection_enabled :: bool
  left_font_label :: font
  right_font_label :: font
  status_label :: status

subsection \<open>Helpers: slices, the counter, the sort\<close>

text \<open>\<^verbatim>\<open>xs[::2]\<close>: every second element, from the first.\<close>

fun stride2 :: "'a list \<Rightarrow> 'a list" where
  "stride2 [] = []"
| "stride2 [x] = [x]"
| "stride2 (x # y # xs) = x # stride2 xs"

text \<open>\<^verbatim>\<open>list(zip(fonts[::2], fonts[1::2]))\<close>, where \<^verbatim>\<open>fonts[1::2]\<close> is \<^verbatim>\<open>fonts[1:][::2]\<close>.\<close>

definition pairs :: "font list \<Rightarrow> (font \<times> font) list" where
  "pairs fonts = zip (stride2 fonts) (stride2 (drop 1 fonts))"

text \<open>
  \<^verbatim>\<open>counts[k] += 1\<close>: an existing key keeps its place and gets one more, a new key is
  appended with the count \<open>0 + 1\<close>.
\<close>

fun counter_incr :: "font \<Rightarrow> counter \<Rightarrow> counter" where
  "counter_incr k [] = [(k, 1)]"
| "counter_incr k ((k', v) # rest) =
     (if k' = k then (k', v + 1) # rest else (k', v) # counter_incr k rest)"

text \<open>\<^verbatim>\<open>counts[k]\<close> read: 0 at a missing key.\<close>

definition tally :: "counter \<Rightarrow> font \<Rightarrow> int" where
  "tally c k = (case map_of c k of None \<Rightarrow> 0 | Some v \<Rightarrow> v)"

text \<open>
  \<^verbatim>\<open>sorted(counts.items(), key=lambda x: x[1], reverse=True)\<close>: Python's sort is
  stable, also with \<^verbatim>\<open>reverse=True\<close> (items of equal key keep their order), so it is the
  stable ascending sort on the negated count.
\<close>

definition sorted_by_count :: "counter \<Rightarrow> (font \<times> int) list" where
  "sorted_by_count items = sort_key (\<lambda>x. - snd x) items"

subsection \<open>The methods\<close>

text \<open>\<^verbatim>\<open>calculate_total_rounds\<close>: the while loop, with its two variables.\<close>

function total_rounds_loop :: "nat \<Rightarrow> nat \<Rightarrow> nat" where
  "total_rounds_loop num_fonts rounds =
     (if num_fonts > 1 then total_rounds_loop ((num_fonts + 1) div 2) (rounds + 1)
      else rounds)"
  by pat_completeness auto
termination
  by (relation "measure (\<lambda>(num_fonts, rounds). num_fonts)") auto

definition calculate_total_rounds :: "nat \<Rightarrow> nat" where
  "calculate_total_rounds num_fonts = total_rounds_loop num_fonts 0"

text \<open>
  \<^verbatim>\<open>display_result\<close> disables the selection, reads \<^verbatim>\<open>round_winners[0]\<close> (an
  IndexError on the empty list) and writes the sorted counts, at most six of them, to
  the status label. An exception leaves no state behind: the result is the error.
\<close>

definition display_result :: "FontTesterApp \<Rightarrow> error + FontTesterApp" where
  "display_result s =
     (let s1 = s\<lparr>selection_enabled := False\<rparr> in
      case round_winners s1 of
        [] \<Rightarrow> Inl IndexError
      | winner # _ \<Rightarrow>
          (let result_lines = sorted_by_count (winner_counts s1) in
           Inr (s1\<lparr>status_label :=
                  FinalWinner (if length result_lines > 6 then take 6 result_lines
                               else result_lines)\<rparr>)))"

text \<open>
  \<^verbatim>\<open>update_fonts\<close> and \<^verbatim>\<open>start_next_round\<close> call each other: with a pair left in the
  round the pair is shown, otherwise the next round starts or the result is shown. (Where
  the pair is shown the progress bar is set too; the round has two fonts or more there, so
  the division by its length raises nothing.)
\<close>

function update_fonts :: "FontTesterApp \<Rightarrow> error + FontTesterApp"
  and start_next_round :: "FontTesterApp \<Rightarrow> error + FontTesterApp" where
  "update_fonts s =
     (let ps = pairs (current_round_fonts s) in
      if current_pair_index s < length ps then
        (case ps ! current_pair_index s of (left_font, right_font) \<Rightarrow>
           Inr (s\<lparr>left_font_label := left_font, right_font_label := right_font,
                  status_label := RoundStatus (round_number s) (total_rounds s)
                                    (current_pair_index s + 1) (length ps)\<rparr>))
      else start_next_round s)"
| "start_next_round s =
     (if length (round_winners s) > 1 then
        (let winners =
           (if length (round_winners s) mod 2 = 1
            then round_winners s @ [last (round_winners s)]
            else round_winners s)
         in update_fonts (s\<lparr>current_round_fonts := winners, round_winners := [],
                            current_pair_index := 0,
                            round_number := round_number s + 1\<rparr>))
      else display_result s)"
  by pat_completeness auto

termination
proof (relation "measure (\<lambda>x. case x of
          Inl s \<Rightarrow> (if current_pair_index s < length (pairs (current_round_fonts s))
                    then 0 else 2)
        | Inr s \<Rightarrow> 1)", goal_cases)
  case 1
  show ?case by simp
next
  case (2 s ps)
  then show ?case by simp
next
  case (3 s winners)
  have stride: "length (stride2 xs) = (length xs + 1) div 2" for xs :: "font list"
    by (induction xs rule: stride2.induct) auto
  have "length (pairs fonts) = length fonts div 2" for fonts
    by (cases fonts) (auto simp: pairs_def stride)
  with 3 show ?case by auto
qed

declare update_fonts.simps [simp del] start_next_round.simps [simp del]

text \<open>
  \<^verbatim>\<open>select_left\<close> and \<^verbatim>\<open>select_right\<close>: nothing happens once the selection is disabled;
  otherwise the chosen font of the current pair is appended to the winners and counted,
  the pair index moves on, and \<^verbatim>\<open>update_fonts\<close> runs. \<^verbatim>\<open>pairs[current_pair_index]\<close>
  raises IndexError out of range.
\<close>

definition select_left :: "FontTesterApp \<Rightarrow> error + FontTesterApp" where
  "select_left s =
     (if selection_enabled s then
        (let ps = pairs (current_round_fonts s) in
         if current_pair_index s < length ps then
           (case ps ! current_pair_index s of (left_font, _) \<Rightarrow>
              update_fonts (s\<lparr>round_winners := round_winners s @ [left_font],
                              winner_counts := counter_incr left_font (winner_counts s),
                              current_pair_index := current_pair_index s + 1\<rparr>))
         else Inl IndexError)
      else Inr s)"

definition select_right :: "FontTesterApp \<Rightarrow> error + FontTesterApp" where
  "select_right s =
     (if selection_enabled s then
        (let ps = pairs (current_round_fonts s) in
         if current_pair_index s < length ps then
           (case ps ! current_pair_index s of (_, right_font) \<Rightarrow>
              update_fonts (s\<lparr>round_winners := round_winners s @ [right_font],
                              winner_counts := counter_incr right_font (winner_counts s),
                              current_pair_index := current_pair_index s + 1\<rparr>))
         else Inl IndexError)
      else Inr s)"

text \<open>
  \<^verbatim>\<open>__init__\<close> sets the fields and, at the end of \<^verbatim>\<open>init_ui\<close>, calls
  \<^verbatim>\<open>update_fonts\<close>. An exception there leaves the constructor, and no object exists.
  (The field \<^verbatim>\<open>comparison_history\<close> is set to the empty list and never used again; the
  model leaves it out.)
\<close>

definition FontTesterApp_init :: "font list \<Rightarrow> error + FontTesterApp" where
  "FontTesterApp_init fonts =
     update_fonts \<lparr>current_round_fonts = fonts, round_winners = [],
                   current_pair_index = 0, round_number = 1,
                   total_rounds = calculate_total_rounds (length fonts),
                   winner_counts = [], selection_enabled = True,
                   left_font_label = [], right_font_label = [],
                   status_label = NoStatus\<rparr>"

subsection \<open>Runs\<close>

text \<open>
  The user's input: a click on one of the two buttons. (The arrow keys call the same two
  methods, under the same test of \<^verbatim>\<open>selection_enabled\<close>.)
\<close>

datatype button = LeftButton | RightButton

fun click :: "button \<Rightarrow> FontTesterApp \<Rightarrow> error + FontTesterApp" where
  "click LeftButton s = select_left s"
| "click RightButton s = select_right s"

text \<open>A sequence of clicks; an exception ends it.\<close>

fun clicks :: "button list \<Rightarrow> FontTesterApp \<Rightarrow> error + FontTesterApp" where
  "clicks [] s = Inr s"
| "clicks (b # bs) s = (case click b s of Inl e \<Rightarrow> Inl e | Inr s' \<Rightarrow> clicks bs s')"

definition run :: "font list \<Rightarrow> button list \<Rightarrow> error + FontTesterApp" where
  "run fonts bs = (case FontTesterApp_init fonts of Inl e \<Rightarrow> Inl e | Inr s \<Rightarrow> clicks bs s)"

text \<open>
  \<open>reaches fonts k s\<close>: the application constructed on \<open>fonts\<close> is in state \<open>s\<close> after \<open>k\<close>
  recorded picks, that is, \<open>k\<close> clicks each made while the selection was enabled. (A click
  with the selection disabled changes nothing, so it reaches no further state.)
\<close>

inductive reaches :: "font list \<Rightarrow> nat \<Rightarrow> FontTesterApp \<Rightarrow> bool" for fonts :: "font list" where
  constructed: "FontTesterApp_init fonts = Inr s \<Longrightarrow> reaches fonts 0 s"
| picked: "reaches fonts k s \<Longrightarrow> selection_enabled s \<Longrightarrow> click b s = Inr s'
             \<Longrightarrow> reaches fonts (Suc k) s'"

code_pred reaches .

subsection \<open>Notions of the specification, and invariants\<close>

text \<open>The tournament is finished when the result has been shown and the selection disabled.\<close>

definition is_finished :: "FontTesterApp \<Rightarrow> bool" where
  "is_finished s = (\<not> selection_enabled s)"


text \<open>
  The list \<^verbatim>\<open>start_next_round\<close> makes the next round of: the winners, with the last one
  a second time when their number is odd.
\<close>

definition next_round_fonts :: "font list \<Rightarrow> font list" where
  "next_round_fonts ws = (if length ws mod 2 = 1 then ws @ [last ws] else ws)"

text \<open>
  What holds of every state a run reaches: the pair index counts the winners of the round;
  while the selection is enabled a pair is pending and the two labels show it; once it is
  disabled one winner is left and the status label shows the sorted counts.
\<close>

definition round_inv :: "FontTesterApp \<Rightarrow> bool" where
  "round_inv s =
     (current_pair_index s = length (round_winners s) \<and>
      2 \<le> length (current_round_fonts s) \<and>
      1 \<le> round_number s \<and>
      (if selection_enabled s then
         current_pair_index s < length (current_round_fonts s) div 2 \<and>
         left_font_label s = current_round_fonts s ! (2 * current_pair_index s) \<and>
         right_font_label s = current_round_fonts s ! (2 * current_pair_index s + 1)
       else
         length (round_winners s) = 1 \<and>
         current_pair_index s = length (current_round_fonts s) div 2 \<and>
         status_label s = FinalWinner (take 6 (sorted_by_count (winner_counts s)))))"

text \<open>The place of the first occurrence of \<open>x\<close> in \<open>xs\<close> (the length of \<open>xs\<close> if there is none).\<close>

definition first_index :: "'a list \<Rightarrow> 'a \<Rightarrow> nat" where
  "first_index xs x = length (takeWhile (\<lambda>y. y \<noteq> x) xs)"

text \<open>
  The order of the ranking: the larger count first, and of two entries with the same count
  the one whose font comes first in the list the application was constructed on.
\<close>

definition ranked_before :: "font list \<Rightarrow> font \<times> int \<Rightarrow> font \<times> int \<Rightarrow> bool" where
  "ranked_before fonts a b =
     (snd b < snd a \<or> (snd a = snd b \<and> first_index fonts (fst a) < first_index fonts (fst b)))"

text \<open>
  A round whose pairs do not share a font with an earlier position: the two fonts of pair
  \<open>i\<close> occur nowhere before position \<open>2 * i\<close>. (They may be equal to each other.)
\<close>

definition fresh_pairs :: "font list \<Rightarrow> bool" where
  "fresh_pairs fs =
     (\<forall>i < length fs div 2. \<forall>j < 2 * i. fs ! j \<noteq> fs ! (2 * i) \<and> fs ! j \<noteq> fs ! (2 * i + 1))"

text \<open>
  What holds of every state a run on distinct fonts reaches, with \<open>r\<close> the round number:
  the winners of the round are one font of each pair judged, in order; a winner of the
  round has won \<open>r\<close> times, every other font at most \<open>r - 1\<close> times, and a font of the
  round that has not won in it exactly \<open>r - 1\<close> times; the keys of the counter stand in the
  order of the constructor's list, and from the second round on every font of the round
  is a key.
\<close>

definition bracket_inv :: "font list \<Rightarrow> FontTesterApp \<Rightarrow> bool" where
  "bracket_inv fonts s =
     (fresh_pairs (current_round_fonts s) \<and>
      set (current_round_fonts s) \<subseteq> set fonts \<and>
      (\<forall>i < length (round_winners s).
          round_winners s ! i = current_round_fonts s ! (2 * i) \<or>
          round_winners s ! i = current_round_fonts s ! (2 * i + 1)) \<and>
      (\<forall>f \<in> set (round_winners s). tally (winner_counts s) f = int (round_number s)) \<and>
      (\<forall>f. f \<notin> set (round_winners s) \<longrightarrow> tally (winner_counts s) f \<le> int (round_number s) - 1) \<and>
      (\<forall>f \<in> set (current_round_fonts s).
          f \<notin> set (round_winners s) \<longrightarrow> tally (winner_counts s) f = int (round_number s) - 1) \<and>
      sorted_wrt (\<lambda>a b. first_index fonts a < first_index fonts b) (map fst (winner_counts s)) \<and>
      (if round_number s = 1
       then current_round_fonts s = fonts \<and> map fst (winner_counts s) = round_winners s
       else set (current_round_fonts s) \<subseteq> set (map fst (winner_counts s))))"

section \<open>Lemmas\<close>

subsection \<open>Pairs\<close>

lemma length_stride2: "length (stride2 xs) = (length xs + 1) div 2"
  by (induction xs rule: stride2.induct) auto

lemma length_pairs: "length (pairs fonts) = length fonts div 2"
  by (cases fonts) (auto simp: pairs_def length_stride2)

lemma stride2_nth: "i < (length xs + 1) div 2 \<Longrightarrow> stride2 xs ! i = xs ! (2 * i)"
proof (induction xs arbitrary: i rule: stride2.induct)
  case (3 x y xs)
  then show ?case by (cases i) auto
qed auto

lemma pairs_nth:
  assumes "i < length fonts div 2"
  shows "pairs fonts ! i = (fonts ! (2 * i), fonts ! (2 * i + 1))"
proof -
  have a: "i < (length fonts + 1) div 2" using assms by simp
  have b: "i < (length (drop 1 fonts) + 1) div 2" using assms by simp
  have c: "2 * i + 1 < length fonts" using assms by simp
  have "stride2 (drop 1 fonts) ! i = drop 1 fonts ! (2 * i)"
    using b by (rule stride2_nth)
  also have "\<dots> = fonts ! (2 * i + 1)" using c by simp
  finally show ?thesis
    using a b stride2_nth [OF a] by (simp add: pairs_def length_stride2)
qed

lemma length_next_round_fonts: "length (next_round_fonts ws) = 2 * ((length ws + 1) div 2)"
  by (simp add: next_round_fonts_def) presburger

subsection \<open>One step\<close>

lemma update_fonts_show:
  assumes "current_pair_index s < length (current_round_fonts s) div 2"
  shows "update_fonts s =
    Inr (s\<lparr>left_font_label := current_round_fonts s ! (2 * current_pair_index s),
           right_font_label := current_round_fonts s ! (2 * current_pair_index s + 1),
           status_label := RoundStatus (round_number s) (total_rounds s)
              (current_pair_index s + 1) (length (current_round_fonts s) div 2)\<rparr>)"
  using assms by (simp add: update_fonts.simps length_pairs pairs_nth)

lemma update_fonts_next:
  assumes "\<not> current_pair_index s < length (current_round_fonts s) div 2"
    and "1 < length (round_winners s)"
  shows "update_fonts s =
    Inr (s\<lparr>current_round_fonts := next_round_fonts (round_winners s),
           round_winners := [], current_pair_index := 0,
           round_number := round_number s + 1,
           left_font_label := next_round_fonts (round_winners s) ! 0,
           right_font_label := next_round_fonts (round_winners s) ! 1,
           status_label := RoundStatus (round_number s + 1) (total_rounds s) 1
              (length (next_round_fonts (round_winners s)) div 2)\<rparr>)"
proof -
  have "0 < length (next_round_fonts (round_winners s)) div 2"
    using assms(2) by (simp add: length_next_round_fonts)
  then show ?thesis
    using assms
    by (simp add: update_fonts.simps [of s] start_next_round.simps length_pairs
        update_fonts_show next_round_fonts_def Let_def)
qed

lemma update_fonts_finish:
  assumes "\<not> current_pair_index s < length (current_round_fonts s) div 2"
    and "round_winners s = [w]"
  shows "update_fonts s =
    Inr (s\<lparr>selection_enabled := False,
           status_label := FinalWinner (take 6 (sorted_by_count (winner_counts s)))\<rparr>)"
  using assms
  by (simp add: update_fonts.simps [of s] start_next_round.simps length_pairs
      display_result_def Let_def)

lemma update_fonts_empty:
  assumes "\<not> current_pair_index s < length (current_round_fonts s) div 2"
    and "round_winners s = []"
  shows "update_fonts s = Inl IndexError"
  using assms
  by (simp add: update_fonts.simps [of s] start_next_round.simps length_pairs
      display_result_def)


text \<open>One recorded pick, by cases: the round goes on, a new round starts, or the result is shown.\<close>

lemma click_cases [consumes 2, case_names same_round new_round finish]:
  assumes en: "selection_enabled s" and cl: "click b s = Inr s'"
  obtains
    (same_round) w where
      "Suc (current_pair_index s) < length (current_round_fonts s) div 2"
      "w = current_round_fonts s ! (2 * current_pair_index s + (case b of LeftButton \<Rightarrow> 0 | RightButton \<Rightarrow> 1))"
      "s' = s\<lparr>round_winners := round_winners s @ [w],
               winner_counts := counter_incr w (winner_counts s),
               current_pair_index := Suc (current_pair_index s),
               left_font_label := current_round_fonts s ! (2 * Suc (current_pair_index s)),
               right_font_label := current_round_fonts s ! (2 * Suc (current_pair_index s) + 1),
               status_label := RoundStatus (round_number s) (total_rounds s)
                  (Suc (current_pair_index s) + 1) (length (current_round_fonts s) div 2)\<rparr>"
  | (new_round) w where
      "current_pair_index s < length (current_round_fonts s) div 2"
      "\<not> Suc (current_pair_index s) < length (current_round_fonts s) div 2"
      "round_winners s \<noteq> []"
      "w = current_round_fonts s ! (2 * current_pair_index s + (case b of LeftButton \<Rightarrow> 0 | RightButton \<Rightarrow> 1))"
      "s' = s\<lparr>winner_counts := counter_incr w (winner_counts s),
               current_round_fonts := next_round_fonts (round_winners s @ [w]),
               round_winners := [],
               current_pair_index := 0,
               round_number := round_number s + 1,
               left_font_label := next_round_fonts (round_winners s @ [w]) ! 0,
               right_font_label := next_round_fonts (round_winners s @ [w]) ! 1,
               status_label := RoundStatus (round_number s + 1) (total_rounds s) 1
                  (length (next_round_fonts (round_winners s @ [w])) div 2)\<rparr>"
  | (finish) w where
      "current_pair_index s < length (current_round_fonts s) div 2"
      "\<not> Suc (current_pair_index s) < length (current_round_fonts s) div 2"
      "round_winners s = []"
      "w = current_round_fonts s ! (2 * current_pair_index s + (case b of LeftButton \<Rightarrow> 0 | RightButton \<Rightarrow> 1))"
      "s' = s\<lparr>round_winners := [w],
               winner_counts := counter_incr w (winner_counts s),
               current_pair_index := Suc (current_pair_index s),
               selection_enabled := False,
               status_label := FinalWinner (take 6 (sorted_by_count (counter_incr w (winner_counts s))))\<rparr>"
proof -
  define w where "w = current_round_fonts s ! (2 * current_pair_index s + (case b of LeftButton \<Rightarrow> 0 | RightButton \<Rightarrow> 1))"
  define s1 where "s1 = s\<lparr>round_winners := round_winners s @ [w],
                           winner_counts := counter_incr w (winner_counts s),
                           current_pair_index := current_pair_index s + 1\<rparr>"
  have lt: "current_pair_index s < length (current_round_fonts s) div 2"
    using en cl by (cases b) (auto simp: select_left_def select_right_def length_pairs split: if_splits)
  have upd: "update_fonts s1 = Inr s'"
    using en cl lt
    by (cases b) (auto simp: select_left_def select_right_def length_pairs pairs_nth w_def s1_def)
  show thesis
  proof (cases "Suc (current_pair_index s) < length (current_round_fonts s) div 2")
    case True
    then have "current_pair_index s1 < length (current_round_fonts s1) div 2"
      by (simp add: s1_def)
    from update_fonts_show [OF this] upd have "s' = s\<lparr>round_winners := round_winners s @ [w],
               winner_counts := counter_incr w (winner_counts s),
               current_pair_index := Suc (current_pair_index s),
               left_font_label := current_round_fonts s ! (2 * Suc (current_pair_index s)),
               right_font_label := current_round_fonts s ! (2 * Suc (current_pair_index s) + 1),
               status_label := RoundStatus (round_number s) (total_rounds s)
                  (Suc (current_pair_index s) + 1) (length (current_round_fonts s) div 2)\<rparr>"
      by (simp add: s1_def)
    with True w_def show thesis by (rule same_round)
  next
    case False
    then have nlt: "\<not> current_pair_index s1 < length (current_round_fonts s1) div 2"
      by (simp add: s1_def)
    show thesis
    proof (cases "round_winners s = []")
      case True
      then have "round_winners s1 = [w]" by (simp add: s1_def)
      from update_fonts_finish [OF nlt this] upd
      have "s' = s\<lparr>round_winners := [w],
               winner_counts := counter_incr w (winner_counts s),
               current_pair_index := Suc (current_pair_index s),
               selection_enabled := False,
               status_label := FinalWinner (take 6 (sorted_by_count (counter_incr w (winner_counts s))))\<rparr>"
        using True by (simp add: s1_def)
      with lt False True w_def show thesis by (rule finish)
    next
      case ne: False
      then have "1 < length (round_winners s1)" by (cases "round_winners s") (auto simp: s1_def)
      from update_fonts_next [OF nlt this] upd
      have "s' = s\<lparr>winner_counts := counter_incr w (winner_counts s),
               current_round_fonts := next_round_fonts (round_winners s @ [w]),
               round_winners := [],
               current_pair_index := 0,
               round_number := round_number s + 1,
               left_font_label := next_round_fonts (round_winners s @ [w]) ! 0,
               right_font_label := next_round_fonts (round_winners s @ [w]) ! 1,
               status_label := RoundStatus (round_number s + 1) (total_rounds s) 1
                  (length (next_round_fonts (round_winners s @ [w])) div 2)\<rparr>"
        by (simp add: s1_def)
      with lt False ne w_def show thesis by (rule new_round)
    qed
  qed
qed

lemma init_cases:
  assumes "FontTesterApp_init fonts = Inr s"
  shows "2 \<le> length fonts \<and>
    s = \<lparr>current_round_fonts = fonts, round_winners = [],
         current_pair_index = 0, round_number = 1,
         total_rounds = calculate_total_rounds (length fonts),
         winner_counts = [], selection_enabled = True,
         left_font_label = fonts ! 0, right_font_label = fonts ! 1,
         status_label = RoundStatus 1 (calculate_total_rounds (length fonts)) 1 (length fonts div 2)\<rparr>"
proof (cases "0 < length fonts div 2")
  case True
  then show ?thesis
    using assms by (simp add: FontTesterApp_init_def update_fonts_show)
next
  case False
  then show ?thesis
    using assms by (simp add: FontTesterApp_init_def update_fonts_empty)
qed


subsection \<open>The invariant of the rounds\<close>

lemma round_inv_init:
  assumes "FontTesterApp_init fonts = Inr s"
  shows "round_inv s"
  using init_cases [OF assms] by (auto simp: round_inv_def)

lemma round_inv_click:
  assumes "round_inv s" and "selection_enabled s" and "click b s = Inr s'"
  shows "round_inv s'"
  using assms(2,3)
proof (cases rule: click_cases)
  case (same_round w)
  then show ?thesis using assms(1,2) by (simp add: round_inv_def)
next
  case (new_round w)
  have "2 \<le> length (next_round_fonts (round_winners s @ [w]))"
    using new_round(3) by (cases "round_winners s") (simp_all add: length_next_round_fonts)
  then show ?thesis using new_round assms(1,2) by (simp add: round_inv_def)
next
  case (finish w)
  from finish(1,2) have "Suc (current_pair_index s) = length (current_round_fonts s) div 2"
    by simp
  then show ?thesis using finish(3,5) assms(1,2) by (simp add: round_inv_def)
qed

lemma reaches_round_inv: "reaches fonts k s \<Longrightarrow> round_inv s"
  by (induction rule: reaches.induct) (auto intro: round_inv_init round_inv_click)

subsection \<open>The counter\<close>

lemma sum_counter_incr: "sum_list (map snd (counter_incr w c)) = sum_list (map snd c) + 1"
  by (induction c) auto

lemma tally_counter_incr: "tally (counter_incr w c) f = tally c f + (if f = w then 1 else 0)"
  by (induction c) (auto simp: tally_def)

lemma keys_counter_incr:
  "map fst (counter_incr w c) = (if w \<in> set (map fst c) then map fst c else map fst c @ [w])"
  by (induction c) (auto split: if_splits)

lemma click_winner_counts:
  assumes "selection_enabled s" and "click b s = Inr s'"
  shows "\<exists>w. winner_counts s' = counter_incr w (winner_counts s)"
  using assms by (cases rule: click_cases) auto

lemma click_disabled: "\<not> selection_enabled s \<Longrightarrow> click b s = Inr s"
  by (cases b) (simp_all add: select_left_def select_right_def)

lemma click_tally_mono:
  assumes "click b s = Inr s'"
  shows "tally (winner_counts s) f \<le> tally (winner_counts s') f"
proof (cases "selection_enabled s")
  case True
  from click_winner_counts [OF True assms] show ?thesis
    by (auto simp: tally_counter_incr)
next
  case False
  with assms show ?thesis by (simp add: click_disabled)
qed

lemma clicks_tally_mono:
  "clicks bs s = Inr s' \<Longrightarrow> tally (winner_counts s) f \<le> tally (winner_counts s') f"
proof (induction bs arbitrary: s)
  case Nil
  then show ?case by simp
next
  case (Cons b bs)
  then obtain s1 where 1: "click b s = Inr s1" and 2: "clicks bs s1 = Inr s'"
    by (auto split: sum.splits)
  from click_tally_mono [OF 1] Cons.IH [OF 2] show ?case by (rule order_trans)
qed

lemma reaches_tally_sum: "reaches fonts k s \<Longrightarrow> sum_list (map snd (winner_counts s)) = int k"
proof (induction rule: reaches.induct)
  case (constructed s)
  then show ?case using init_cases by fastforce
next
  case (picked k s b s')
  from click_winner_counts [OF picked(2,3)] picked(4) show ?case
    by (auto simp: sum_counter_incr)
qed

subsection \<open>Runs and reachable states\<close>

lemma clicks_append:
  "clicks (bs @ cs) s = (case clicks bs s of Inl e \<Rightarrow> Inl e | Inr s' \<Rightarrow> clicks cs s')"
  by (induction bs arbitrary: s) (auto split: sum.splits)

lemma clicks_enabled_reaches:
  assumes "reaches fonts k s" and "clicks bs s = Inr s'" and "selection_enabled s'"
  shows "reaches fonts (k + length bs) s'"
  using assms(2,3)
proof (induction bs arbitrary: s' rule: rev_induct)
  case Nil
  then show ?case using assms(1) by simp
next
  case (snoc b bs)
  from snoc.prems(1) obtain s1 where 1: "clicks bs s = Inr s1" and 2: "click b s1 = Inr s'"
    by (auto simp: clicks_append split: sum.splits)
  have en: "selection_enabled s1"
  proof (rule ccontr)
    assume "\<not> selection_enabled s1"
    with 2 snoc.prems(2) show False by (simp add: click_disabled)
  qed
  from reaches.picked [OF snoc.IH [OF 1 en] en 2] show ?case by simp
qed

lemma run_enabled_reaches:
  assumes "run fonts bs = Inr s" and "selection_enabled s"
  shows "reaches fonts (length bs) s"
proof -
  from assms(1) obtain s0 where 0: "FontTesterApp_init fonts = Inr s0" and 1: "clicks bs s0 = Inr s"
    by (auto simp: run_def split: sum.splits)
  from clicks_enabled_reaches [OF reaches.constructed [OF 0] 1 assms(2)] show ?thesis by simp
qed

lemma click_enabled_total:
  assumes inv: "round_inv s" and en: "selection_enabled s"
  shows "\<exists>w s'. click b s = Inr s' \<and>
     w = current_round_fonts s ! (2 * current_pair_index s + (case b of LeftButton \<Rightarrow> 0 | RightButton \<Rightarrow> 1)) \<and>
     winner_counts s' = counter_incr w (winner_counts s)"
proof -
  define w where "w = current_round_fonts s ! (2 * current_pair_index s + (case b of LeftButton \<Rightarrow> 0 | RightButton \<Rightarrow> 1))"
  define s1 where "s1 = s\<lparr>round_winners := round_winners s @ [w],
                           winner_counts := counter_incr w (winner_counts s),
                           current_pair_index := current_pair_index s + 1\<rparr>"
  have lt: "current_pair_index s < length (current_round_fonts s) div 2"
    using inv en by (simp add: round_inv_def)
  have cl: "click b s = update_fonts s1"
    using en lt
    by (cases b) (auto simp: select_left_def select_right_def length_pairs pairs_nth w_def s1_def)
  have "\<exists>s'. update_fonts s1 = Inr s' \<and> winner_counts s' = winner_counts s1"
  proof (cases "current_pair_index s1 < length (current_round_fonts s1) div 2")
    case True
    from update_fonts_show [OF True] show ?thesis by simp
  next
    case False
    show ?thesis
    proof (cases "round_winners s = []")
      case True
      then have "round_winners s1 = [w]" by (simp add: s1_def)
      from update_fonts_finish [OF False this] show ?thesis by simp
    next
      case ne: False
      then have "1 < length (round_winners s1)"
        by (cases "round_winners s") (auto simp: s1_def)
      from update_fonts_next [OF False this] show ?thesis by simp
    qed
  qed
  then show ?thesis using cl by (auto simp: s1_def w_def)
qed

lemma start_next_round_odd:
  assumes "1 < length (round_winners t)" and "odd (length (round_winners t))"
  shows "\<exists>t'. start_next_round t = Inr t' \<and>
     current_round_fonts t' = round_winners t @ [last (round_winners t)] \<and>
     last (pairs (current_round_fonts t')) = (last (round_winners t), last (round_winners t))"
proof -
  define ws where "ws = round_winners t"
  define fs where "fs = ws @ [last ws]"
  define t1 where "t1 = t\<lparr>current_round_fonts := fs, round_winners := [],
                           current_pair_index := 0, round_number := round_number t + 1\<rparr>"
  from assms obtain m where m: "length ws = 2 * m + 1" and m1: "1 \<le> m"
    unfolding ws_def by (auto elim!: oddE)
  have len: "length fs = 2 * m + 2" by (simp add: fs_def m)
  have snr: "start_next_round t = update_fonts t1"
    using assms by (simp add: start_next_round.simps t1_def fs_def ws_def odd_iff_mod_2_eq_one)
  have "current_pair_index t1 < length (current_round_fonts t1) div 2"
    by (simp add: t1_def len)
  from update_fonts_show [OF this]
  obtain t' where t': "update_fonts t1 = Inr t'" and crf: "current_round_fonts t' = fs"
    by (simp add: t1_def)
  have mlt: "m < length fs div 2" by (simp add: len)
  have ne: "ws \<noteq> []" using m by auto
  have "last (pairs fs) = pairs fs ! m"
    using mlt by (simp add: last_conv_nth length_pairs len flip: length_0_conv)
  also have "\<dots> = (fs ! (2 * m), fs ! (2 * m + 1))" using mlt by (rule pairs_nth)
  also have "fs ! (2 * m) = last ws"
    using ne m by (simp add: fs_def nth_append last_conv_nth)
  also have "fs ! (2 * m + 1) = last ws"
    using m by (simp add: fs_def nth_append)
  finally show ?thesis using snr t' crf by (simp add: fs_def ws_def)
qed

subsection \<open>The progress fraction\<close>



subsection \<open>Rounds with fresh pairs\<close>

lemma first_index_nth:
  assumes "distinct xs" and "i < length xs"
  shows "first_index xs (xs ! i) = i"
proof -
  have "takeWhile (\<lambda>y. y \<noteq> xs ! i) xs = take i xs"
  proof (rule takeWhile_eq_take_P_nth)
    fix j assume "j < i" "j < length xs"
    then show "xs ! j \<noteq> xs ! i"
      using assms by (simp add: nth_eq_iff_index_eq)
  next
    show "\<not> xs ! i \<noteq> xs ! i" by simp
  qed
  then show ?thesis using assms(2) by (simp add: first_index_def)
qed

lemma fresh_pairs_distinct: "distinct fs \<Longrightarrow> fresh_pairs fs"
  unfolding fresh_pairs_def
  by (auto simp: nth_eq_iff_index_eq)

lemma set_next_round_fonts: "ws \<noteq> [] \<Longrightarrow> set (next_round_fonts ws) = set ws"
  by (auto simp: next_round_fonts_def)

lemma fresh_pairs_next_round:
  assumes "distinct ws"
  shows "fresh_pairs (next_round_fonts ws)"
proof (cases "length ws mod 2 = 1")
  case False
  then show ?thesis using assms by (simp add: next_round_fonts_def fresh_pairs_distinct)
next
  case True
  then obtain m where m: "length ws = 2 * m + 1"
    by (metis mult_div_mod_eq)
  have ne: "ws \<noteq> []" using m by auto
  have nth: "(ws @ [last ws]) ! p = ws ! (min p (2 * m))" if "p \<le> 2 * m + 1" for p
    using that m ne by (cases "p = 2 * m + 1") (auto simp: nth_append last_conv_nth min_def)
  show ?thesis
    unfolding fresh_pairs_def
  proof (intro allI impI)
    fix i j
    assume i: "i < length (next_round_fonts ws) div 2" and j: "j < 2 * i"
    from i have i': "i \<le> m" using True m by (simp add: next_round_fonts_def)
    have a: "(ws @ [last ws]) ! j = ws ! j" using nth [of j] j i' by (simp add: min_def)
    have b: "(ws @ [last ws]) ! (2 * i) = ws ! (2 * i)" using nth [of "2 * i"] i' by (simp add: min_def)
    have c: "(ws @ [last ws]) ! (2 * i + 1) = ws ! (min (2 * i + 1) (2 * m))"
      using nth [of "2 * i + 1"] i' by simp
    have "ws ! j \<noteq> ws ! (2 * i)"
      using assms j i' m by (simp add: nth_eq_iff_index_eq)
    moreover have "ws ! j \<noteq> ws ! (min (2 * i + 1) (2 * m))"
      using assms j i' m by (simp add: nth_eq_iff_index_eq min_def)
    ultimately show "next_round_fonts ws ! j \<noteq> next_round_fonts ws ! (2 * i) \<and>
        next_round_fonts ws ! j \<noteq> next_round_fonts ws ! (2 * i + 1)"
      using True a b c by (simp add: next_round_fonts_def)
  qed
qed

text \<open>The winners of a round with fresh pairs: a font of a later pair is none of them.\<close>

lemma pick_not_winner:
  assumes fp: "fresh_pairs fs"
    and ch: "\<forall>i < length ws. ws ! i = fs ! (2 * i) \<or> ws ! i = fs ! (2 * i + 1)"
    and n: "length ws \<le> n" "n < length fs div 2"
  shows "fs ! (2 * n) \<notin> set ws \<and> fs ! (2 * n + 1) \<notin> set ws"
proof -
  have "ws ! i \<noteq> fs ! (2 * n) \<and> ws ! i \<noteq> fs ! (2 * n + 1)" if "i < length ws" for i
  proof -
    from that n have "2 * i < 2 * n" "2 * i + 1 < 2 * n" by simp_all
    with fp n(2) have "fs ! (2 * i) \<noteq> fs ! (2 * n) \<and> fs ! (2 * i) \<noteq> fs ! (2 * n + 1)"
      and "fs ! (2 * i + 1) \<noteq> fs ! (2 * n) \<and> fs ! (2 * i + 1) \<noteq> fs ! (2 * n + 1)"
      unfolding fresh_pairs_def by blast+
    with ch that show ?thesis by metis
  qed
  then show ?thesis by (auto simp: in_set_conv_nth)
qed

lemma winners_distinct:
  assumes fp: "fresh_pairs fs"
    and ch: "\<forall>i < length ws. ws ! i = fs ! (2 * i) \<or> ws ! i = fs ! (2 * i + 1)"
    and n: "length ws \<le> length fs div 2"
  shows "distinct ws"
  using ch n
proof (induction ws rule: rev_induct)
  case Nil
  then show ?case by simp
next
  case (snoc w ws)
  have ch': "\<forall>i < length ws. ws ! i = fs ! (2 * i) \<or> ws ! i = fs ! (2 * i + 1)"
  proof (intro allI impI)
    fix i assume "i < length ws"
    with snoc.prems(1) [rule_format, of i] show "ws ! i = fs ! (2 * i) \<or> ws ! i = fs ! (2 * i + 1)"
      by (simp add: nth_append)
  qed
  have lt: "length ws < length fs div 2" using snoc.prems(2) by simp
  from snoc.prems(1) [rule_format, of "length ws"]
  have w: "w = fs ! (2 * length ws) \<or> w = fs ! (2 * length ws + 1)" by simp
  from pick_not_winner [OF fp ch' order_refl lt] w have "w \<notin> set ws" by auto
  moreover have "distinct ws" using snoc.IH [OF ch'] lt by simp
  ultimately show ?case by simp
qed


subsection \<open>The invariant of the bracket\<close>

lemma bracket_inv_fields:
  assumes "current_round_fonts s' = current_round_fonts s"
    and "round_winners s' = round_winners s"
    and "winner_counts s' = winner_counts s"
    and "round_number s' = round_number s"
  shows "bracket_inv fonts s' = bracket_inv fonts s"
  by (simp add: bracket_inv_def assms)

lemma tally_pos_key: "0 < tally c f \<Longrightarrow> f \<in> set (map fst c)"
  by (auto simp: tally_def split: option.splits dest: map_of_SomeD intro: rev_image_eqI)

lemma bracket_inv_init:
  assumes "distinct fonts" and "FontTesterApp_init fonts = Inr s"
  shows "bracket_inv fonts s"
  using init_cases [OF assms(2)] assms(1)
  by (auto simp: bracket_inv_def fresh_pairs_distinct tally_def)

lemma bracket_inv_pick:
  assumes d: "distinct fonts" and inv: "bracket_inv fonts s"
    and lt: "length (round_winners s) < length (current_round_fonts s) div 2"
    and w: "w = current_round_fonts s ! (2 * length (round_winners s)) \<or>
            w = current_round_fonts s ! (2 * length (round_winners s) + 1)"
  shows "bracket_inv fonts (s\<lparr>round_winners := round_winners s @ [w],
                               winner_counts := counter_incr w (winner_counts s)\<rparr>)"
proof -
  define fs ws c r where "fs = current_round_fonts s" and "ws = round_winners s"
    and "c = winner_counts s" and "r = round_number s"
  note defs = fs_def ws_def c_def r_def
  have fp: "fresh_pairs fs"
    and sub: "set fs \<subseteq> set fonts"
    and ch: "\<forall>i < length ws. ws ! i = fs ! (2 * i) \<or> ws ! i = fs ! (2 * i + 1)"
    and ta: "\<forall>f \<in> set ws. tally c f = int r"
    and tb: "\<forall>f. f \<notin> set ws \<longrightarrow> tally c f \<le> int r - 1"
    and td: "\<forall>f \<in> set fs. f \<notin> set ws \<longrightarrow> tally c f = int r - 1"
    and so: "sorted_wrt (\<lambda>a b. first_index fonts a < first_index fonts b) (map fst c)"
    and ks: "if r = 1 then fs = fonts \<and> map fst c = ws else set fs \<subseteq> set (map fst c)"
    using inv unfolding bracket_inv_def defs by blast+
  have lt': "length ws < length fs div 2" using lt by (simp add: defs)
  have w': "w = fs ! (2 * length ws) \<or> w = fs ! (2 * length ws + 1)" using w by (simp add: defs)
  have w_in: "w \<in> set fs" using w' lt' by (auto intro!: nth_mem)
  have w_new: "w \<notin> set ws"
    using pick_not_winner [OF fp ch order_refl lt'] w' by auto
  have tw: "tally c w = int r - 1" using td w_in w_new by blast
  have ch': "\<forall>i < length (ws @ [w]).
      (ws @ [w]) ! i = fs ! (2 * i) \<or> (ws @ [w]) ! i = fs ! (2 * i + 1)"
  proof (intro allI impI)
    fix i assume "i < length (ws @ [w])"
    then consider "i < length ws" | "i = length ws" by fastforce
    then show "(ws @ [w]) ! i = fs ! (2 * i) \<or> (ws @ [w]) ! i = fs ! (2 * i + 1)"
      using ch w' by cases (auto simp: nth_append)
  qed
  have ta': "\<forall>f \<in> set (ws @ [w]). tally (counter_incr w c) f = int r"
    using ta tw w_new by (auto simp: tally_counter_incr)
  have tb': "\<forall>f. f \<notin> set (ws @ [w]) \<longrightarrow> tally (counter_incr w c) f \<le> int r - 1"
    using tb by (auto simp: tally_counter_incr)
  have td': "\<forall>f \<in> set fs. f \<notin> set (ws @ [w]) \<longrightarrow> tally (counter_incr w c) f = int r - 1"
    using td by (auto simp: tally_counter_incr)
  have keys: "sorted_wrt (\<lambda>a b. first_index fonts a < first_index fonts b)
        (map fst (counter_incr w c)) \<and>
      (if r = 1 then fs = fonts \<and> map fst (counter_incr w c) = ws @ [w]
       else set fs \<subseteq> set (map fst (counter_incr w c)))"
  proof (cases "r = 1")
    case True
    with ks have fs: "fs = fonts" and k: "map fst c = ws" by simp_all
    have k': "map fst (counter_incr w c) = ws @ [w]"
      using w_new k by (simp add: keys_counter_incr)
    have "first_index fonts y < first_index fonts w" if "y \<in> set ws" for y
    proof -
      from that obtain i where i: "i < length ws" and y: "y = ws ! i"
        by (auto simp: in_set_conv_nth)
      from ch i y have "y = fonts ! (2 * i) \<or> y = fonts ! (2 * i + 1)" by (simp add: fs)
      moreover have "2 * i + 1 < length fonts" "2 * length ws + 1 < length fonts"
        using i lt' by (simp_all add: fs)
      ultimately have "first_index fonts y \<le> 2 * i + 1"
        using d by (auto simp: first_index_nth)
      moreover have "2 * length ws \<le> first_index fonts w"
        using w' d \<open>2 * length ws + 1 < length fonts\<close> by (auto simp: fs first_index_nth)
      ultimately show ?thesis using i by linarith
    qed
    then have "sorted_wrt (\<lambda>a b. first_index fonts a < first_index fonts b) (ws @ [w])"
      using so k by (simp add: sorted_wrt_append)
    then show ?thesis using True fs k' by simp
  next
    case False
    with ks have "set fs \<subseteq> set (map fst c)" by simp
    with w_in have "map fst (counter_incr w c) = map fst c"
      by (auto simp: keys_counter_incr)
    then show ?thesis using False so \<open>set fs \<subseteq> set (map fst c)\<close> by simp
  qed
  show ?thesis
    using fp sub ch' ta' tb' td' keys
    unfolding bracket_inv_def defs
    by (simp split: if_split_asm)
qed

lemma bracket_inv_next:
  assumes inv: "bracket_inv fonts s"
    and ne: "round_winners s \<noteq> []"
    and le: "length (round_winners s) \<le> length (current_round_fonts s) div 2"
    and r: "1 \<le> round_number s"
  shows "bracket_inv fonts (s\<lparr>current_round_fonts := next_round_fonts (round_winners s),
                               round_winners := [],
                               round_number := round_number s + 1\<rparr>)"
proof -
  define fs ws c r where "fs = current_round_fonts s" and "ws = round_winners s"
    and "c = winner_counts s" and "r = round_number s"
  note defs = fs_def ws_def c_def r_def
  have fp: "fresh_pairs fs"
    and sub: "set fs \<subseteq> set fonts"
    and ch: "\<forall>i < length ws. ws ! i = fs ! (2 * i) \<or> ws ! i = fs ! (2 * i + 1)"
    and ta: "\<forall>f \<in> set ws. tally c f = int r"
    and tb: "\<forall>f. f \<notin> set ws \<longrightarrow> tally c f \<le> int r - 1"
    and so: "sorted_wrt (\<lambda>a b. first_index fonts a < first_index fonts b) (map fst c)"
    using inv unfolding bracket_inv_def defs by blast+
  have le': "length ws \<le> length fs div 2" using le by (simp add: defs)
  have r1: "1 \<le> r" using r by (simp add: defs)
  have ne': "ws \<noteq> []" using ne by (simp add: defs)
  have "distinct ws" using fp ch le' by (rule winners_distinct)
  then have fp': "fresh_pairs (next_round_fonts ws)" by (rule fresh_pairs_next_round)
  have ws_fs: "set ws \<subseteq> set fs"
  proof
    fix y assume "y \<in> set ws"
    then obtain i where i: "i < length ws" and y: "y = ws ! i"
      by (auto simp: in_set_conv_nth)
    from i le' have "2 * i + 1 < length fs" by simp
    then have "fs ! (2 * i) \<in> set fs" "fs ! (2 * i + 1) \<in> set fs" by simp_all
    with ch i y show "y \<in> set fs" by metis
  qed
  have set': "set (next_round_fonts ws) = set ws" using ne' by (rule set_next_round_fonts)
  have sub': "set (next_round_fonts ws) \<subseteq> set fonts" using set' ws_fs sub by simp
  have tb': "\<forall>f. tally c f \<le> int (r + 1) - 1"
  proof
    fix f show "tally c f \<le> int (r + 1) - 1"
      using ta [rule_format, of f] tb [rule_format, of f] by (cases "f \<in> set ws") simp_all
  qed
  have td': "\<forall>f \<in> set (next_round_fonts ws). tally c f = int (r + 1) - 1"
    using ta set' by simp
  have "set (next_round_fonts ws) \<subseteq> set (map fst c)"
  proof
    fix f assume "f \<in> set (next_round_fonts ws)"
    with set' ta have "tally c f = int r" by simp
    with r1 have "0 < tally c f" by simp
    then show "f \<in> set (map fst c)" by (rule tally_pos_key)
  qed
  then show ?thesis
    using fp' sub' tb' td' so r1
    unfolding bracket_inv_def defs
    by simp
qed

lemma bracket_inv_click:
  assumes d: "distinct fonts" and rinv: "round_inv s" and inv: "bracket_inv fonts s"
    and en: "selection_enabled s" and cl: "click b s = Inr s'"
  shows "bracket_inv fonts s'"
proof -
  have idx: "current_pair_index s = length (round_winners s)"
    and r1: "1 \<le> round_number s"
    using rinv by (simp_all add: round_inv_def)
  from en cl show ?thesis
  proof (cases rule: click_cases)
    case (same_round w)
    have w: "w = current_round_fonts s ! (2 * length (round_winners s)) \<or>
            w = current_round_fonts s ! (2 * length (round_winners s) + 1)"
      using same_round(2) idx by (cases b) simp_all
    have lt: "length (round_winners s) < length (current_round_fonts s) div 2"
      using same_round(1) idx by simp
    from bracket_inv_pick [OF d inv lt w] show ?thesis
      by (subst bracket_inv_fields [where s' = s']) (simp_all add: same_round(3))
  next
    case (new_round w)
    have w: "w = current_round_fonts s ! (2 * length (round_winners s)) \<or>
            w = current_round_fonts s ! (2 * length (round_winners s) + 1)"
      using new_round(4) idx by (cases b) simp_all
    have lt: "length (round_winners s) < length (current_round_fonts s) div 2"
      using new_round(1) idx by simp
    define s1 where "s1 = s\<lparr>round_winners := round_winners s @ [w],
                             winner_counts := counter_incr w (winner_counts s)\<rparr>"
    have 1: "bracket_inv fonts s1"
      unfolding s1_def by (rule bracket_inv_pick [OF d inv lt w])
    have "bracket_inv fonts (s1\<lparr>current_round_fonts := next_round_fonts (round_winners s1),
                               round_winners := [],
                               round_number := round_number s1 + 1\<rparr>)"
      using lt r1 by (intro bracket_inv_next [OF 1]) (simp_all add: s1_def)
    then show ?thesis
      by (subst bracket_inv_fields [where s' = s']) (simp_all add: new_round(5) s1_def)
  next
    case (finish w)
    have w: "w = current_round_fonts s ! (2 * length (round_winners s)) \<or>
            w = current_round_fonts s ! (2 * length (round_winners s) + 1)"
      using finish(4) idx by (cases b) simp_all
    have lt: "length (round_winners s) < length (current_round_fonts s) div 2"
      using finish(1) idx by simp
    from bracket_inv_pick [OF d inv lt w] show ?thesis
      by (subst bracket_inv_fields [where s' = s']) (simp_all add: finish(5) finish(3))
  qed
qed

lemma reaches_bracket_inv:
  assumes "distinct fonts" and "reaches fonts k s"
  shows "bracket_inv fonts s"
  using assms(2)
proof (induction rule: reaches.induct)
  case (constructed s)
  with assms(1) show ?case by (rule bracket_inv_init)
next
  case (picked k s b s')
  from bracket_inv_click [OF assms(1) reaches_round_inv [OF picked(1)] picked(4) picked(2,3)]
  show ?case .
qed

subsection \<open>The sort\<close>

lemma sorted_wrt_insort_key:
  assumes "sorted (map f ys)" and "sorted_wrt P ys"
    and "\<forall>y \<in> set ys. (f x \<le> f y \<longrightarrow> P x y) \<and> (f y < f x \<longrightarrow> P y x)"
  shows "sorted_wrt P (insort_key f x ys)"
  using assms
proof (induction ys)
  case Nil
  then show ?case by simp
next
  case (Cons y ys)
  show ?case
  proof (cases "f x \<le> f y")
    case True
    have "P x z" if "z \<in> set (y # ys)" for z
    proof -
      from that Cons.prems(1) have "f y \<le> f z" by auto
      with True have "f x \<le> f z" by simp
      with Cons.prems(3) that show ?thesis by blast
    qed
    with True Cons.prems(2) show ?thesis by simp
  next
    case False
    then have "P y x" using Cons.prems(3) by simp
    moreover have "sorted_wrt P (insort_key f x ys)"
      using Cons.prems by (intro Cons.IH) simp_all
    ultimately show ?thesis using False Cons.prems(2) by (auto simp: set_insort_key)
  qed
qed

lemma sorted_by_count_ranked:
  assumes "sorted_wrt (\<lambda>a b. first_index fonts a < first_index fonts b) (map fst c)"
  shows "sorted_wrt (ranked_before fonts) (sorted_by_count c)"
  using assms unfolding sorted_by_count_def
proof (induction c)
  case Nil
  then show ?case by simp
next
  case (Cons x c)
  have "sorted_wrt (ranked_before fonts) (sort_key (\<lambda>x. - snd x) c)"
    using Cons by simp
  moreover have "\<forall>y \<in> set (sort_key (\<lambda>x. - snd x) c).
      (- snd x \<le> - snd y \<longrightarrow> ranked_before fonts x y) \<and>
      (- snd y < - snd x \<longrightarrow> ranked_before fonts y x)"
    using Cons.prems by (auto simp: ranked_before_def)
  ultimately show ?case
    by (simp add: sorted_wrt_insort_key)
qed

lemma keys_in_order_distinct:
  "sorted_wrt (\<lambda>a b. first_index fonts a < first_index fonts b) ks \<Longrightarrow> distinct ks"
  by (induction ks) auto

lemma tally_distinct: "distinct (map fst c) \<Longrightarrow> (f, n) \<in> set c \<Longrightarrow> tally c f = n"
  by (simp add: tally_def)

lemma sorted_by_count_head:
  assumes "sorted_by_count c = (g, n) # rest" and "(f, m) \<in> set c"
  shows "m \<le> n"
proof -
  have "sorted (map (\<lambda>x. - snd x) (sorted_by_count c))"
    by (simp add: sorted_by_count_def)
  moreover have "(f, m) \<in> set (sorted_by_count c)"
    using assms(2) by (simp add: sorted_by_count_def)
  ultimately show ?thesis using assms(1) by auto
qed

text \<open>The finished tournament on distinct fonts: one winner, ahead of all in the counts.\<close>

lemma finished_winner:
  assumes d: "distinct fonts" and re: "reaches fonts k s" and fin: "\<not> selection_enabled s"
  shows "\<exists>w rest. round_winners s = [w] \<and> w \<in> set fonts \<and>
     (\<forall>f. f \<noteq> w \<longrightarrow> tally (winner_counts s) f < tally (winner_counts s) w) \<and>
     sorted_by_count (winner_counts s) = (w, tally (winner_counts s) w) # rest"
proof -
  note rinv = reaches_round_inv [OF re]
  note binv = reaches_bracket_inv [OF d re]
  define c r where "c = winner_counts s" and "r = round_number s"
  from rinv fin obtain w where w: "round_winners s = [w]"
    and r1: "1 \<le> r" and len: "2 \<le> length (current_round_fonts s)"
    unfolding round_inv_def r_def by (cases "round_winners s") auto
  have ta: "tally c w = int r"
    and tb: "\<forall>f. f \<noteq> w \<longrightarrow> tally c f \<le> int r - 1"
    and so: "sorted_wrt (\<lambda>a b. first_index fonts a < first_index fonts b) (map fst c)"
    and ch: "w = current_round_fonts s ! 0 \<or> w = current_round_fonts s ! 1"
    and sub: "set (current_round_fonts s) \<subseteq> set fonts"
    using binv w unfolding bracket_inv_def c_def r_def by auto
  have "0 < length (current_round_fonts s)" "1 < length (current_round_fonts s)"
    using len by linarith+
  then have "current_round_fonts s ! 0 \<in> set (current_round_fonts s)"
    "current_round_fonts s ! 1 \<in> set (current_round_fonts s)"
    by (simp_all only: nth_mem)
  with ch sub have w_in: "w \<in> set fonts" by auto
  have dk: "distinct (map fst c)" using so by (rule keys_in_order_distinct)
  have "0 < tally c w" using ta r1 by simp
  then obtain v where "map_of c w = Some v" by (auto simp: tally_def split: option.splits)
  then have "(w, v) \<in> set c" by (rule map_of_SomeD)
  with ta dk have wc: "(w, int r) \<in> set c" by (simp add: tally_distinct)
  then have "sorted_by_count c \<noteq> []"
    by (auto simp: sorted_by_count_def simp flip: set_empty)
  then obtain g n rest where hd: "sorted_by_count c = (g, n) # rest"
    by (cases "sorted_by_count c") auto
  have "(g, n) \<in> set (sorted_by_count c)" using hd by simp
  then have gc: "(g, n) \<in> set c" by (simp add: sorted_by_count_def)
  then have tg: "tally c g = n" using dk by (simp add: tally_distinct)
  have "int r \<le> n" using hd wc by (rule sorted_by_count_head)
  with tb tg have "g = w" by force
  with tg ta hd have "sorted_by_count c = (w, tally c w) # rest" by simp
  moreover have "\<forall>f. f \<noteq> w \<longrightarrow> tally c f < tally c w" using ta tb by force
  ultimately show ?thesis using w w_in unfolding c_def by blast
qed

subsection \<open>Some runs, evaluated\<close>

lemma reaches_ABCD_0:
  "reaches [''A'', ''B'', ''C'', ''D''] 0
     \<lparr>current_round_fonts = [''A'', ''B'', ''C'', ''D''], round_winners = [],
      current_pair_index = 0, round_number = 1, total_rounds = 2,
      winner_counts = [], selection_enabled = True,
      left_font_label = ''A'', right_font_label = ''B'',
      status_label = RoundStatus 1 2 1 2\<rparr>"
  by (rule reaches.constructed) code_simp

lemma reaches_ABCD_1:
  "reaches [''A'', ''B'', ''C'', ''D''] 1
     \<lparr>current_round_fonts = [''A'', ''B'', ''C'', ''D''], round_winners = [''A''],
      current_pair_index = 1, round_number = 1, total_rounds = 2,
      winner_counts = [(''A'', 1)], selection_enabled = True,
      left_font_label = ''C'', right_font_label = ''D'',
      status_label = RoundStatus 1 2 2 2\<rparr>"
  unfolding One_nat_def
  by (rule reaches.picked [OF reaches_ABCD_0, where b = LeftButton]) code_simp+

lemma reaches_ABCD_2:
  "reaches [''A'', ''B'', ''C'', ''D''] 2
     \<lparr>current_round_fonts = [''A'', ''D''], round_winners = [],
      current_pair_index = 0, round_number = 2, total_rounds = 2,
      winner_counts = [(''A'', 1), (''D'', 1)], selection_enabled = True,
      left_font_label = ''A'', right_font_label = ''D'',
      status_label = RoundStatus 2 2 1 1\<rparr>"
proof -
  have "reaches [''A'', ''B'', ''C'', ''D''] (Suc 1)
     \<lparr>current_round_fonts = [''A'', ''D''], round_winners = [],
      current_pair_index = 0, round_number = 2, total_rounds = 2,
      winner_counts = [(''A'', 1), (''D'', 1)], selection_enabled = True,
      left_font_label = ''A'', right_font_label = ''D'',
      status_label = RoundStatus 2 2 1 1\<rparr>"
    by (rule reaches.picked [OF reaches_ABCD_1, where b = RightButton]) code_simp+
  then show ?thesis by (simp add: numeral_2_eq_2)
qed

lemma reaches_ABCD_3:
  "reaches [''A'', ''B'', ''C'', ''D''] 3
     \<lparr>current_round_fonts = [''A'', ''D''], round_winners = [''A''],
      current_pair_index = 1, round_number = 2, total_rounds = 2,
      winner_counts = [(''A'', 2), (''D'', 1)], selection_enabled = False,
      left_font_label = ''A'', right_font_label = ''D'',
      status_label = FinalWinner [(''A'', 2), (''D'', 1)]\<rparr>"
proof -
  have "reaches [''A'', ''B'', ''C'', ''D''] (Suc 2)
     \<lparr>current_round_fonts = [''A'', ''D''], round_winners = [''A''],
      current_pair_index = 1, round_number = 2, total_rounds = 2,
      winner_counts = [(''A'', 2), (''D'', 1)], selection_enabled = False,
      left_font_label = ''A'', right_font_label = ''D'',
      status_label = FinalWinner [(''A'', 2), (''D'', 1)]\<rparr>"
    by (rule reaches.picked [OF reaches_ABCD_2, where b = LeftButton]) code_simp+
  then show ?thesis by (simp add: eval_nat_numeral)
qed

lemma reaches_AF_4:
  "reaches [''A'', ''B'', ''C'', ''D'', ''E'', ''F''] 4
     \<lparr>current_round_fonts = [''A'', ''C'', ''E'', ''E''], round_winners = [''A''],
      current_pair_index = 1, round_number = 2, total_rounds = 3,
      winner_counts = [(''A'', 2), (''C'', 1), (''E'', 1)], selection_enabled = True,
      left_font_label = ''E'', right_font_label = ''E'',
      status_label = RoundStatus 2 3 2 2\<rparr>"
proof -
  have "run [''A'', ''B'', ''C'', ''D'', ''E'', ''F'']
          [LeftButton, LeftButton, LeftButton, LeftButton] =
     Inr \<lparr>current_round_fonts = [''A'', ''C'', ''E'', ''E''], round_winners = [''A''],
      current_pair_index = 1, round_number = 2, total_rounds = 3,
      winner_counts = [(''A'', 2), (''C'', 1), (''E'', 1)], selection_enabled = True,
      left_font_label = ''E'', right_font_label = ''E'',
      status_label = RoundStatus 2 3 2 2\<rparr>"
    by code_simp
  from run_enabled_reaches [OF this] show ?thesis by (simp add: eval_nat_numeral)
qed

lemma reaches_AH_7:
  "reaches [''A'', ''B'', ''C'', ''D'', ''E'', ''F'', ''G'', ''H''] 7
     \<lparr>current_round_fonts = [''D'', ''E''], round_winners = [''E''],
      current_pair_index = 1, round_number = 3, total_rounds = 3,
      winner_counts = [(''B'', 1), (''D'', 2), (''E'', 3), (''G'', 1)],
      selection_enabled = False,
      left_font_label = ''D'', right_font_label = ''E'',
      status_label = FinalWinner [(''E'', 3), (''D'', 2), (''B'', 1), (''G'', 1)]\<rparr>"
proof -
  have "run [''A'', ''B'', ''C'', ''D'', ''E'', ''F'', ''G'', ''H'']
          [RightButton, RightButton, LeftButton, LeftButton, RightButton, LeftButton] =
     Inr \<lparr>current_round_fonts = [''D'', ''E''], round_winners = [],
      current_pair_index = 0, round_number = 3, total_rounds = 3,
      winner_counts = [(''B'', 1), (''D'', 2), (''E'', 2), (''G'', 1)],
      selection_enabled = True,
      left_font_label = ''D'', right_font_label = ''E'',
      status_label = RoundStatus 3 3 1 1\<rparr>"
    by code_simp
  from run_enabled_reaches [OF this]
  have 6: "reaches [''A'', ''B'', ''C'', ''D'', ''E'', ''F'', ''G'', ''H''] 6
     \<lparr>current_round_fonts = [''D'', ''E''], round_winners = [],
      current_pair_index = 0, round_number = 3, total_rounds = 3,
      winner_counts = [(''B'', 1), (''D'', 2), (''E'', 2), (''G'', 1)],
      selection_enabled = True,
      left_font_label = ''D'', right_font_label = ''E'',
      status_label = RoundStatus 3 3 1 1\<rparr>"
    by (simp add: eval_nat_numeral)
  have "reaches [''A'', ''B'', ''C'', ''D'', ''E'', ''F'', ''G'', ''H''] (Suc 6)
     \<lparr>current_round_fonts = [''D'', ''E''], round_winners = [''E''],
      current_pair_index = 1, round_number = 3, total_rounds = 3,
      winner_counts = [(''B'', 1), (''D'', 2), (''E'', 3), (''G'', 1)],
      selection_enabled = False,
      left_font_label = ''D'', right_font_label = ''E'',
      status_label = FinalWinner [(''E'', 3), (''D'', 2), (''B'', 1), (''G'', 1)]\<rparr>"
    by (rule reaches.picked [OF 6, where b = RightButton]) code_simp+
  then show ?thesis by (simp add: eval_nat_numeral)
qed

text \<open>
  Two runs on lists that name a font twice. In the first, \<open>B\<close> and \<open>A\<close> end with one win
  each and \<open>B\<close> is listed before \<open>A\<close>, the order of their first wins, although \<open>A\<close>
  comes first in the list. In the second, \<open>X\<close> wins the final against \<open>A\<close>, both have
  three wins, and \<open>A\<close> heads the sorted counts.
\<close>

lemma repeated_font_tie_order:
  "run [''A'', ''B'', ''C'', ''D'', ''B'', ''A'', ''E'', ''F'']
       [RightButton, LeftButton, RightButton, LeftButton, RightButton, RightButton, LeftButton] =
     Inr \<lparr>current_round_fonts = [''C'', ''E''], round_winners = [''C''],
          current_pair_index = 1, round_number = 3, total_rounds = 3,
          winner_counts = [(''B'', 1), (''C'', 3), (''A'', 1), (''E'', 2)],
          selection_enabled = False, left_font_label = ''C'',
          right_font_label = ''E'',
          status_label = FinalWinner [(''C'', 3), (''E'', 2), (''B'', 1), (''A'', 1)]\<rparr>"
  by code_simp

lemma repeated_font_winner_tied:
  "run [''A'', ''B'', ''C'', ''A'', ''X'', ''D'', ''E'', ''F'']
       [LeftButton, RightButton, LeftButton, LeftButton, LeftButton, LeftButton, RightButton] =
     Inr \<lparr>current_round_fonts = [''A'', ''X''], round_winners = [''X''],
          current_pair_index = 1, round_number = 3, total_rounds = 3,
          winner_counts = [(''A'', 3), (''X'', 3), (''E'', 1)],
          selection_enabled = False, left_font_label = ''A'',
          right_font_label = ''X'',
          status_label = FinalWinner [(''A'', 3), (''X'', 3), (''E'', 1)]\<rparr>"
  by code_simp

section \<open>The claims\<close>

text \<open>
  C1 does not hold of the code. On three fonts the tournament is finished after one pick,
  not two: the third font is dropped. On six fonts it is not finished after five picks:
  the third winner of the first round is paired with itself in the second.
\<close>

theorem picks_to_finish_examples:
  "run [''A'', ''B'', ''C''] [LeftButton] =
     Inr \<lparr>current_round_fonts = [''A'', ''B'', ''C''], round_winners = [''A''],
          current_pair_index = 1, round_number = 1, total_rounds = 2,
          winner_counts = [(''A'', 1)], selection_enabled = False,
          left_font_label = ''A'', right_font_label = ''B'',
          status_label = FinalWinner [(''A'', 1)]\<rparr> \<and>
   run [''A'', ''B'', ''C'', ''D'', ''E'', ''F'']
       [LeftButton, LeftButton, LeftButton, LeftButton, LeftButton] =
     Inr \<lparr>current_round_fonts = [''A'', ''E''], round_winners = [],
          current_pair_index = 0, round_number = 3, total_rounds = 3,
          winner_counts = [(''A'', 2), (''C'', 1), (''E'', 2)],
          selection_enabled = True, left_font_label = ''A'',
          right_font_label = ''E'', status_label = RoundStatus 3 3 1 1\<rparr>"
  by code_simp

text \<open>
  C2 does not hold of the code. On \<open>[A, B, C]\<close> the pair shown is \<open>(A, B)\<close>; after
  \<open>A\<close> is picked the result is shown with \<open>A\<close> as the only winner. No second round
  \<open>[A, C]\<close> is played, and \<open>C\<close> is in no list of winners.
\<close>

theorem odd_round_drops_last_example:
  "FontTesterApp_init [''A'', ''B'', ''C''] =
     Inr \<lparr>current_round_fonts = [''A'', ''B'', ''C''], round_winners = [],
          current_pair_index = 0, round_number = 1, total_rounds = 2,
          winner_counts = [], selection_enabled = True,
          left_font_label = ''A'', right_font_label = ''B'',
          status_label = RoundStatus 1 2 1 1\<rparr> \<and>
   select_left
     \<lparr>current_round_fonts = [''A'', ''B'', ''C''], round_winners = [],
      current_pair_index = 0, round_number = 1, total_rounds = 2,
      winner_counts = [], selection_enabled = True,
      left_font_label = ''A'', right_font_label = ''B'',
      status_label = RoundStatus 1 2 1 1\<rparr> =
     Inr \<lparr>current_round_fonts = [''A'', ''B'', ''C''], round_winners = [''A''],
          current_pair_index = 1, round_number = 1, total_rounds = 2,
          winner_counts = [(''A'', 1)], selection_enabled = False,
          left_font_label = ''A'', right_font_label = ''B'',
          status_label = FinalWinner [(''A'', 1)]\<rparr>"
  by code_simp

text \<open>
  C3, as the code has it. When a round ends with an odd number of winners, more than one,
  \<^verbatim>\<open>start_next_round\<close> appends the last winner a second time, and the last pair of the
  next round holds that font twice. Such a pair is shown like any other: both labels name
  the font, the selection stays enabled, and the click on either button adds one to the
  font's count.
\<close>

theorem duplicated_winner_is_shown_and_counted:
  "(1 < length (round_winners t) \<and> odd (length (round_winners t)) \<longrightarrow>
      (\<exists>t'. start_next_round t = Inr t' \<and>
         current_round_fonts t' = round_winners t @ [last (round_winners t)] \<and>
         last (pairs (current_round_fonts t')) =
           (last (round_winners t), last (round_winners t)))) \<and>
   (reaches fonts k s \<and> selection_enabled s \<and>
    pairs (current_round_fonts s) ! current_pair_index s = (x, x) \<longrightarrow>
      left_font_label s = x \<and> right_font_label s = x \<and>
      (\<exists>s'. click b s = Inr s' \<and>
         tally (winner_counts s') x = tally (winner_counts s) x + 1))"
proof (intro conjI impI)
  assume "1 < length (round_winners t) \<and> odd (length (round_winners t))"
  then show "\<exists>t'. start_next_round t = Inr t' \<and>
         current_round_fonts t' = round_winners t @ [last (round_winners t)] \<and>
         last (pairs (current_round_fonts t')) =
           (last (round_winners t), last (round_winners t))"
    using start_next_round_odd by blast
next
  assume a: "reaches fonts k s \<and> selection_enabled s \<and>
    pairs (current_round_fonts s) ! current_pair_index s = (x, x)"
  then have inv: "round_inv s" and en: "selection_enabled s"
    using reaches_round_inv by blast+
  have lt: "current_pair_index s < length (current_round_fonts s) div 2"
    using inv en by (simp add: round_inv_def)
  from a pairs_nth [OF lt]
  have l: "current_round_fonts s ! (2 * current_pair_index s) = x"
    and r: "current_round_fonts s ! (2 * current_pair_index s + 1) = x"
    by simp_all
  show "left_font_label s = x" using inv en l by (simp add: round_inv_def)
  show "right_font_label s = x" using inv en r by (simp add: round_inv_def)
  from click_enabled_total [OF inv en, of b] l r
  show "\<exists>s'. click b s = Inr s' \<and>
         tally (winner_counts s') x = tally (winner_counts s) x + 1"
    by (cases b) (auto simp: tally_counter_incr)
qed

theorem duplicated_winner_is_shown_and_counted_witness:
  "reaches [''A'', ''B'', ''C'', ''D'', ''E'', ''F''] 4
     \<lparr>current_round_fonts = [''A'', ''C'', ''E'', ''E''], round_winners = [''A''],
      current_pair_index = 1, round_number = 2, total_rounds = 3,
      winner_counts = [(''A'', 2), (''C'', 1), (''E'', 1)], selection_enabled = True,
      left_font_label = ''E'', right_font_label = ''E'',
      status_label = RoundStatus 2 3 2 2\<rparr> \<and>
   pairs [''A'', ''C'', ''E'', ''E''] ! 1 = (''E'', ''E'') \<and>
   (\<exists>s'. click LeftButton
     \<lparr>current_round_fonts = [''A'', ''C'', ''E'', ''E''], round_winners = [''A''],
      current_pair_index = 1, round_number = 2, total_rounds = 3,
      winner_counts = [(''A'', 2), (''C'', 1), (''E'', 1)], selection_enabled = True,
      left_font_label = ''E'', right_font_label = ''E'',
      status_label = RoundStatus 2 3 2 2\<rparr> = Inr s' \<and>
      tally (winner_counts s') ''E'' = tally [(''A'', 2), (''C'', 1), (''E'', 1)] ''E'' + 1) \<and>
   (\<exists>t'. start_next_round
     \<lparr>current_round_fonts = [''A'', ''B'', ''C'', ''D'', ''E'', ''F''],
      round_winners = [''A'', ''C'', ''E''],
      current_pair_index = 3, round_number = 1, total_rounds = 3,
      winner_counts = [(''A'', 1), (''C'', 1), (''E'', 1)], selection_enabled = True,
      left_font_label = ''E'', right_font_label = ''F'',
      status_label = RoundStatus 1 3 3 3\<rparr> = Inr t' \<and>
      current_round_fonts t' = [''A'', ''C'', ''E'', ''E''] \<and>
      last (pairs (current_round_fonts t')) = (''E'', ''E''))"
proof -
  have p: "pairs [''A'', ''C'', ''E'', ''E''] ! 1 = (''E'', ''E'')" by code_simp
  from duplicated_winner_is_shown_and_counted
    [of "\<lparr>current_round_fonts = [''A'', ''B'', ''C'', ''D'', ''E'', ''F''],
      round_winners = [''A'', ''C'', ''E''],
      current_pair_index = 3, round_number = 1, total_rounds = 3,
      winner_counts = [(''A'', 1), (''C'', 1), (''E'', 1)], selection_enabled = True,
      left_font_label = ''E'', right_font_label = ''F'',
      status_label = RoundStatus 1 3 3 3\<rparr>"
     "[''A'', ''B'', ''C'', ''D'', ''E'', ''F'']" 4
     "\<lparr>current_round_fonts = [''A'', ''C'', ''E'', ''E''], round_winners = [''A''],
      current_pair_index = 1, round_number = 2, total_rounds = 3,
      winner_counts = [(''A'', 2), (''C'', 1), (''E'', 1)], selection_enabled = True,
      left_font_label = ''E'', right_font_label = ''E'',
      status_label = RoundStatus 2 3 2 2\<rparr>" "''E''" LeftButton]
    reaches_AF_4 p
  show ?thesis by simp
qed

text \<open>
  C3, as stated, fails on six fonts. After three picks the winners are \<open>[A, C, E]\<close> and
  the second round is \<open>[A, C, E, E]\<close>; after the fourth pick the pair \<open>(E, E)\<close> is on
  the two labels, the selection is enabled, and the click on it raises the count of \<open>E\<close>
  from 1 to 2, although \<open>E\<close> has won against one other font only.
\<close>

theorem duplicated_winner_counterexample:
  "run [''A'', ''B'', ''C'', ''D'', ''E'', ''F'']
       [LeftButton, LeftButton, LeftButton, LeftButton] =
     Inr \<lparr>current_round_fonts = [''A'', ''C'', ''E'', ''E''], round_winners = [''A''],
          current_pair_index = 1, round_number = 2, total_rounds = 3,
          winner_counts = [(''A'', 2), (''C'', 1), (''E'', 1)], selection_enabled = True,
          left_font_label = ''E'', right_font_label = ''E'',
          status_label = RoundStatus 2 3 2 2\<rparr> \<and>
   select_left
     \<lparr>current_round_fonts = [''A'', ''C'', ''E'', ''E''], round_winners = [''A''],
      current_pair_index = 1, round_number = 2, total_rounds = 3,
      winner_counts = [(''A'', 2), (''C'', 1), (''E'', 1)], selection_enabled = True,
      left_font_label = ''E'', right_font_label = ''E'',
      status_label = RoundStatus 2 3 2 2\<rparr> =
     Inr \<lparr>current_round_fonts = [''A'', ''E''], round_winners = [],
          current_pair_index = 0, round_number = 3, total_rounds = 3,
          winner_counts = [(''A'', 2), (''C'', 1), (''E'', 2)],
          selection_enabled = True, left_font_label = ''A'',
          right_font_label = ''E'', status_label = RoundStatus 3 3 1 1\<rparr>"
  by code_simp

text \<open>
  C4. The constructor's list names each font once: \<^verbatim>\<open>main\<close> draws it with
  \<^verbatim>\<open>random.sample\<close> from the font families, and the specification's interface supplies
  a deduplicated sequence. Let the tournament on such a list be finished. Then one winner is left in
  \<^verbatim>\<open>round_winners\<close>, a font of the constructor's list, and it heads the sorted counts
  (the line after \<^verbatim>\<open>Final Winner:\<close>). The status label shows the first six entries of
  the sorted counts; these are the entries of \<^verbatim>\<open>winner_counts\<close>, each once, the larger
  count first, and entries with equal counts in the order of the fonts' first occurrence
  in the constructor's list.
\<close>

theorem final_result_ranking:
  assumes "distinct fonts" and "reaches fonts k s" and "is_finished s"
  shows "\<exists>winner n rest.
      round_winners s = [winner] \<and> winner \<in> set fonts \<and>
      sorted_by_count (winner_counts s) = (winner, n) # rest \<and>
      status_label s = FinalWinner (take 6 (sorted_by_count (winner_counts s))) \<and>
      mset (sorted_by_count (winner_counts s)) = mset (winner_counts s) \<and>
      sorted_wrt (ranked_before fonts) (sorted_by_count (winner_counts s))"
proof -
  have fin: "\<not> selection_enabled s" using assms(3) by (simp add: is_finished_def)
  from finished_winner [OF assms(1,2) fin]
  obtain w rest where w: "round_winners s = [w]" "w \<in> set fonts"
    and hd: "sorted_by_count (winner_counts s) = (w, tally (winner_counts s) w) # rest"
    by blast
  have st: "status_label s = FinalWinner (take 6 (sorted_by_count (winner_counts s)))"
    using reaches_round_inv [OF assms(2)] fin by (simp add: round_inv_def)
  have ms: "mset (sorted_by_count (winner_counts s)) = mset (winner_counts s)"
    by (simp add: sorted_by_count_def)
  have "sorted_wrt (\<lambda>a b. first_index fonts a < first_index fonts b) (map fst (winner_counts s))"
    using reaches_bracket_inv [OF assms(1,2)] by (simp add: bracket_inv_def)
  then have "sorted_wrt (ranked_before fonts) (sorted_by_count (winner_counts s))"
    by (rule sorted_by_count_ranked)
  with w hd st ms show ?thesis by blast
qed

theorem final_result_ranking_witness:
  "distinct [''A'', ''B'', ''C'', ''D'', ''E'', ''F'', ''G'', ''H''] \<and>
   reaches [''A'', ''B'', ''C'', ''D'', ''E'', ''F'', ''G'', ''H''] 7
     \<lparr>current_round_fonts = [''D'', ''E''], round_winners = [''E''],
      current_pair_index = 1, round_number = 3, total_rounds = 3,
      winner_counts = [(''B'', 1), (''D'', 2), (''E'', 3), (''G'', 1)],
      selection_enabled = False,
      left_font_label = ''D'', right_font_label = ''E'',
      status_label = FinalWinner [(''E'', 3), (''D'', 2), (''B'', 1), (''G'', 1)]\<rparr> \<and>
   is_finished
     \<lparr>current_round_fonts = [''D'', ''E''], round_winners = [''E''],
      current_pair_index = 1, round_number = 3, total_rounds = 3,
      winner_counts = [(''B'', 1), (''D'', 2), (''E'', 3), (''G'', 1)],
      selection_enabled = False,
      left_font_label = ''D'', right_font_label = ''E'',
      status_label = FinalWinner [(''E'', 3), (''D'', 2), (''B'', 1), (''G'', 1)]\<rparr> \<and>
   sorted_by_count [(''B'', 1), (''D'', 2), (''E'', 3), (''G'', 1)] =
     [(''E'', 3), (''D'', 2), (''B'', 1), (''G'', 1)] \<and>
   sorted_wrt (ranked_before [''A'', ''B'', ''C'', ''D'', ''E'', ''F'', ''G'', ''H''])
     (sorted_by_count [(''B'', 1), (''D'', 2), (''E'', 3), (''G'', 1)])"
proof -
  have d: "distinct [''A'', ''B'', ''C'', ''D'', ''E'', ''F'', ''G'', ''H'']" by simp
  have f: "is_finished
     \<lparr>current_round_fonts = [''D'', ''E''], round_winners = [''E''],
      current_pair_index = 1, round_number = 3, total_rounds = 3,
      winner_counts = [(''B'', 1), (''D'', 2), (''E'', 3), (''G'', 1)],
      selection_enabled = False,
      left_font_label = ''D'', right_font_label = ''E'',
      status_label = FinalWinner [(''E'', 3), (''D'', 2), (''B'', 1), (''G'', 1)]\<rparr>"
    by (simp add: is_finished_def)
  have e: "sorted_by_count [(''B'', 1), (''D'', 2), (''E'', 3), (''G'', 1)] =
     [(''E'', 3), (''D'', 2), (''B'', 1), (''G'', 1)]"
    by code_simp
  from final_result_ranking [OF d reaches_AH_7 f] d reaches_AH_7 f e
  show ?thesis by auto
qed

text \<open>
  C5, as the code has it. With the selection disabled (the tournament is finished),
  \<^verbatim>\<open>select_left\<close> and \<^verbatim>\<open>select_right\<close> return without raising anything and leave
  the state as it is.
\<close>

theorem click_when_finished:
  assumes "is_finished s"
  shows "select_left s = Inr s \<and> select_right s = Inr s"
  using assms by (simp add: is_finished_def select_left_def select_right_def)

theorem click_when_finished_witness:
  "is_finished
     \<lparr>current_round_fonts = [''A'', ''D''], round_winners = [''A''],
      current_pair_index = 1, round_number = 2, total_rounds = 2,
      winner_counts = [(''A'', 2), (''D'', 1)], selection_enabled = False,
      left_font_label = ''A'', right_font_label = ''D'',
      status_label = FinalWinner [(''A'', 2), (''D'', 1)]\<rparr> \<and>
   select_left
     \<lparr>current_round_fonts = [''A'', ''D''], round_winners = [''A''],
      current_pair_index = 1, round_number = 2, total_rounds = 2,
      winner_counts = [(''A'', 2), (''D'', 1)], selection_enabled = False,
      left_font_label = ''A'', right_font_label = ''D'',
      status_label = FinalWinner [(''A'', 2), (''D'', 1)]\<rparr> =
   Inr \<lparr>current_round_fonts = [''A'', ''D''], round_winners = [''A''],
      current_pair_index = 1, round_number = 2, total_rounds = 2,
      winner_counts = [(''A'', 2), (''D'', 1)], selection_enabled = False,
      left_font_label = ''A'', right_font_label = ''D'',
      status_label = FinalWinner [(''A'', 2), (''D'', 1)]\<rparr>"
proof -
  have fin: "is_finished
     \<lparr>current_round_fonts = [''A'', ''D''], round_winners = [''A''],
      current_pair_index = 1, round_number = 2, total_rounds = 2,
      winner_counts = [(''A'', 2), (''D'', 1)], selection_enabled = False,
      left_font_label = ''A'', right_font_label = ''D'',
      status_label = FinalWinner [(''A'', 2), (''D'', 1)]\<rparr>"
    by (simp add: is_finished_def)
  from fin click_when_finished [OF fin] show ?thesis by simp
qed

text \<open>
  C5, as stated, fails: after the only pick of the tournament on \<open>[A, B]\<close> the
  tournament is finished, and a further \<^verbatim>\<open>select_left\<close> returns normally; no error is
  raised.
\<close>

theorem click_when_finished_raises_counterexample:
  "run [''A'', ''B''] [LeftButton] =
     Inr \<lparr>current_round_fonts = [''A'', ''B''], round_winners = [''A''],
          current_pair_index = 1, round_number = 1, total_rounds = 1,
          winner_counts = [(''A'', 1)], selection_enabled = False,
          left_font_label = ''A'', right_font_label = ''B'',
          status_label = FinalWinner [(''A'', 1)]\<rparr> \<and>
   is_finished
     \<lparr>current_round_fonts = [''A'', ''B''], round_winners = [''A''],
      current_pair_index = 1, round_number = 1, total_rounds = 1,
      winner_counts = [(''A'', 1)], selection_enabled = False,
      left_font_label = ''A'', right_font_label = ''B'',
      status_label = FinalWinner [(''A'', 1)]\<rparr> \<and>
   \<not> isl (select_left
     \<lparr>current_round_fonts = [''A'', ''B''], round_winners = [''A''],
      current_pair_index = 1, round_number = 1, total_rounds = 1,
      winner_counts = [(''A'', 1)], selection_enabled = False,
      left_font_label = ''A'', right_font_label = ''B'',
      status_label = FinalWinner [(''A'', 1)]\<rparr>)"
  by code_simp

text \<open>
  C6. Constructing the application on fewer than two fonts raises: no pair is there to
  show, no winner either, and \<^verbatim>\<open>display_result\<close> reads \<^verbatim>\<open>round_winners[0]\<close> of the
  empty list. The exception is Python's IndexError.
\<close>

theorem init_too_few_fonts:
  assumes "length fonts < 2"
  shows "FontTesterApp_init fonts = Inl IndexError"
  using assms by (simp add: FontTesterApp_init_def update_fonts_empty)

theorem init_too_few_fonts_witness:
  "length [''A''] < 2 \<and> FontTesterApp_init [''A''] = Inl IndexError"
proof -
  have h: "length [''A''] < 2" by simp
  from h init_too_few_fonts [OF h] show ?thesis by simp
qed



text \<open>
  C8. In every reached state the counts of \<^verbatim>\<open>winner_counts\<close> add up to the number of
  recorded picks, and whatever is clicked afterwards, no font's count ever gets smaller.
\<close>

theorem counts_sum_to_picks:
  assumes "reaches fonts k s"
  shows "sum_list (map snd (winner_counts s)) = int k \<and>
    (\<forall>bs s' f. clicks bs s = Inr s' \<longrightarrow>
       tally (winner_counts s) f \<le> tally (winner_counts s') f)"
  using reaches_tally_sum [OF assms] clicks_tally_mono by blast

theorem counts_sum_to_picks_witness:
  "reaches [''A'', ''B'', ''C'', ''D''] 2
     \<lparr>current_round_fonts = [''A'', ''D''], round_winners = [],
      current_pair_index = 0, round_number = 2, total_rounds = 2,
      winner_counts = [(''A'', 1), (''D'', 1)], selection_enabled = True,
      left_font_label = ''A'', right_font_label = ''D'',
      status_label = RoundStatus 2 2 1 1\<rparr> \<and>
   sum_list (map snd [(''A'', 1 :: int), (''D'', 1)]) = int 2"
  using counts_sum_to_picks [OF reaches_ABCD_2] reaches_ABCD_2 by simp



text \<open>
  C10. In the finished tournament on a list of distinct fonts (two or more, or the
  constructor had raised) the winner's count is strictly larger than the count of every
  other font, so the winner's entry is the first of the sorted counts.
\<close>

theorem winner_has_most_wins:
  assumes "distinct fonts" and "reaches fonts k s" and "is_finished s"
  shows "2 \<le> length fonts \<and>
    (\<exists>winner rest. round_winners s = [winner] \<and>
      (\<forall>f. f \<noteq> winner \<longrightarrow> tally (winner_counts s) f < tally (winner_counts s) winner) \<and>
      sorted_by_count (winner_counts s) = (winner, tally (winner_counts s) winner) # rest)"
proof -
  have fin: "\<not> selection_enabled s" using assms(3) by (simp add: is_finished_def)
  have "2 \<le> length fonts"
    using assms(2) by (induction rule: reaches.induct) (auto dest: init_cases)
  with finished_winner [OF assms(1,2) fin] show ?thesis by blast
qed

theorem winner_has_most_wins_witness:
  "distinct [''A'', ''B'', ''C'', ''D''] \<and>
   reaches [''A'', ''B'', ''C'', ''D''] 3
     \<lparr>current_round_fonts = [''A'', ''D''], round_winners = [''A''],
      current_pair_index = 1, round_number = 2, total_rounds = 2,
      winner_counts = [(''A'', 2), (''D'', 1)], selection_enabled = False,
      left_font_label = ''A'', right_font_label = ''D'',
      status_label = FinalWinner [(''A'', 2), (''D'', 1)]\<rparr> \<and>
   is_finished
     \<lparr>current_round_fonts = [''A'', ''D''], round_winners = [''A''],
      current_pair_index = 1, round_number = 2, total_rounds = 2,
      winner_counts = [(''A'', 2), (''D'', 1)], selection_enabled = False,
      left_font_label = ''A'', right_font_label = ''D'',
      status_label = FinalWinner [(''A'', 2), (''D'', 1)]\<rparr> \<and>
   tally [(''A'', 2), (''D'', 1)] ''D'' < tally [(''A'', 2), (''D'', 1)] ''A''"
proof -
  have d: "distinct [''A'', ''B'', ''C'', ''D'']" by simp
  have f: "is_finished
     \<lparr>current_round_fonts = [''A'', ''D''], round_winners = [''A''],
      current_pair_index = 1, round_number = 2, total_rounds = 2,
      winner_counts = [(''A'', 2), (''D'', 1)], selection_enabled = False,
      left_font_label = ''A'', right_font_label = ''D'',
      status_label = FinalWinner [(''A'', 2), (''D'', 1)]\<rparr>"
    by (simp add: is_finished_def)
  from winner_has_most_wins [OF d reaches_ABCD_3 f] d reaches_ABCD_3 f
  show ?thesis by auto
qed

end
